theory Spec2Isabelle
  imports Main "HOL-Library.Word"
begin

section \<open>The streaming hash action of the file-analysis framework (Hash.cc)\<close>

text \<open>
  \<^verbatim>\<open>file_analysis::Hash\<close> is attached to one file's content stream. It feeds every
  delivered chunk into a hash value it owns and, at end of file, assigns the digest to
  one field of the shared results record. The embedding below follows
  \<^verbatim>\<open>src/file_analysis/Hash.cc\<close> method by method, with explicit state passing.
\<close>

subsection \<open>Data\<close>

type_synonym u_char = "8 word"
type_synonym uint64 = "64 word"

text \<open>
  Modelled from the spec: the class \<^verbatim>\<open>HashVal\<close> (the spec's HashState, "an incremental
  digest primitive with operations Init, Feed(bytes), IsValid() and Get()") is defined
  outside \<^verbatim>\<open>Hash.cc\<close>. Its four methods are taken as parameters over an arbitrary
  representation \<open>'h\<close> of the hash value and an arbitrary digest type \<open>'d\<close>.
  \<open>Init\<close>, \<open>Feed\<close> and \<open>Get\<close> are called on a non-const pointer and may
  change the hash value, so each returns the new one; \<open>IsValid\<close> only observes.
\<close>

record ('h, 'd) HashVal =
  Init :: "'h \<Rightarrow> 'h"
  Feed :: "u_char list \<Rightarrow> 'h \<Rightarrow> 'h"
  IsValid :: "'h \<Rightarrow> bool"
  Get :: "'h \<Rightarrow> 'd \<times> 'h"

text \<open>
  The members of a \<^verbatim>\<open>Hash\<close> object. \<open>hash\<close> stands for the object behind the
  \<^verbatim>\<open>HashVal*\<close>, which the action alone holds (it releases it in its destructor).
\<close>

record 'h Hash =
  hash :: 'h
  fed :: bool
  result_field_idx :: int

text \<open>
  What the action reaches outside itself: the record returned by
  \<^verbatim>\<open>info->GetResults(args)\<close>, as a map from field offsets to values, and the log of
  the calls the action has made on its collaborators, oldest first. The log is not in
  the C++ code; it is kept so that "calls \<^verbatim>\<open>Assign\<close>", "feeds the hash" and
  "before any \<^verbatim>\<open>Init\<close>" can be stated.
\<close>

datatype 'd effect =
  HashInit
  | HashFeed "u_char list"
  | HashGet
  | Assign int 'd

record 'd env =
  results :: "int \<rightharpoonup> 'd"
  calls :: "'d effect list"

text \<open>
  \<^verbatim>\<open>reporter->InternalError\<close> reports and aborts; the spec calls the outcome a
  ConfigurationError. It carries the formatted message.
\<close>

datatype error = InternalError string

subsection \<open>Construction\<close>

text \<open>
  Modelled from the spec: \<^verbatim>\<open>RecordType::FieldOffset\<close> is defined outside
  \<^verbatim>\<open>Hash.cc\<close>. The results schema is the list of its field names in declaration order;
  \<open>FieldOffset\<close> is the position of the first field with the given name, and \<open>-1\<close>
  when there is none ("construction fails if the field does not exist").
\<close>

fun FieldOffset_from :: "int \<Rightarrow> string list \<Rightarrow> string \<Rightarrow> int" where
  "FieldOffset_from i [] field = - 1"
| "FieldOffset_from i (td # types) field =
     (if td = field then i else FieldOffset_from (i + 1) types field)"

definition FieldOffset :: "string list \<Rightarrow> string \<Rightarrow> int" where
  "FieldOffset ActionResults field = FieldOffset_from 0 ActionResults field"

text \<open>
  \<^verbatim>\<open>Hash::Hash(args, info, hv, field)\<close>. The member initialisers set \<open>hash\<close> to
  \<open>hv\<close> and \<open>fed\<close> to false; the body resolves the field and, unless that aborts,
  calls \<^verbatim>\<open>hash->Init()\<close>.
\<close>

definition Hash_ctor ::
  "('h, 'd) HashVal \<Rightarrow> string list \<Rightarrow> 'h \<Rightarrow> string \<Rightarrow> 'd env
     \<Rightarrow> (error + 'h Hash) \<times> 'd env" where
  "Hash_ctor ops ActionResults hv field w =
     (let idx = FieldOffset ActionResults field in
      if idx < 0
      then (Inl (InternalError (''Missing ActionResults field: '' @ field)), w)
      else (Inr \<lparr>hash = Init ops hv, fed = False, result_field_idx = idx\<rparr>,
            w\<lparr>calls := calls w @ [HashInit]\<rparr>))"

subsection \<open>The callbacks\<close>

text \<open>
  \<^verbatim>\<open>bool Hash::DeliverStream(const u_char* data, uint64 len)\<close>. The buffer
  \<^verbatim>\<open>data[0..len)\<close> is the list \<open>data\<close> and \<open>len\<close> is its length; \<open>len\<close> is only
  compared with zero, so its width does not matter.
\<close>

fun DeliverStream ::
  "('h, 'd) HashVal \<Rightarrow> u_char list \<Rightarrow> 'h Hash \<times> 'd env \<Rightarrow> bool \<times> 'h Hash \<times> 'd env" where
  "DeliverStream ops data (s, w) =
     (if \<not> IsValid ops (hash s) then (False, s, w)
      else
        let len = length data;
            s1 = (if \<not> fed s then s\<lparr>fed := 0 < len\<rparr> else s)
        in (True,
            s1\<lparr>hash := Feed ops data (hash s1)\<rparr>,
            w\<lparr>calls := calls w @ [HashFeed data]\<rparr>))"

text \<open>\<^verbatim>\<open>void Hash::Finalize()\<close>.\<close>

fun Finalize :: "('h, 'd) HashVal \<Rightarrow> 'h Hash \<times> 'd env \<Rightarrow> 'h Hash \<times> 'd env" where
  "Finalize ops (s, w) =
     (if \<not> IsValid ops (hash s) \<or> \<not> fed s then (s, w)
      else
        let (sv, h) = Get ops (hash s)
        in (s\<lparr>hash := h\<rparr>,
            w\<lparr>results := (results w)(result_field_idx s \<mapsto> sv),
              calls := calls w @ [HashGet, Assign (result_field_idx s) sv]\<rparr>))"

text \<open>\<^verbatim>\<open>bool Hash::EndOfFile()\<close>.\<close>

fun EndOfFile :: "('h, 'd) HashVal \<Rightarrow> 'h Hash \<times> 'd env \<Rightarrow> bool \<times> 'h Hash \<times> 'd env" where
  "EndOfFile ops (s, w) = (False, Finalize ops (s, w))"

text \<open>\<^verbatim>\<open>bool Hash::Undelivered(uint64 offset, uint64 len)\<close>.\<close>

fun Undelivered ::
  "uint64 \<Rightarrow> uint64 \<Rightarrow> 'h Hash \<times> 'd env \<Rightarrow> bool \<times> 'h Hash \<times> 'd env" where
  "Undelivered offset len (s, w) = (False, s, w)"

subsection \<open>Sequences of notifications\<close>

text \<open>
  The framework delivers chunk, gap and end-of-file notifications to an instance one at a
  time. A notification is a value of \<open>call\<close>; \<open>step\<close> dispatches one to its
  callback and \<open>run\<close> delivers a list of them in order, dropping the return values.
\<close>

datatype call =
  CallDeliverStream "u_char list"
  | CallUndelivered uint64 uint64
  | CallEndOfFile

fun step ::
  "('h, 'd) HashVal \<Rightarrow> call \<Rightarrow> 'h Hash \<times> 'd env \<Rightarrow> bool \<times> 'h Hash \<times> 'd env" where
  "step ops (CallDeliverStream data) sw = DeliverStream ops data sw"
| "step ops (CallUndelivered offset len) sw = Undelivered offset len sw"
| "step ops CallEndOfFile sw = EndOfFile ops sw"

fun run :: "('h, 'd) HashVal \<Rightarrow> call list \<Rightarrow> 'h Hash \<times> 'd env \<Rightarrow> 'h Hash \<times> 'd env" where
  "run ops [] sw = sw"
| "run ops (c # cs) sw = run ops cs (snd (step ops c sw))"

text \<open>The hash value reports valid before each notification of the list and after the last.\<close>

fun valid_throughout :: "('h, 'd) HashVal \<Rightarrow> call list \<Rightarrow> 'h Hash \<times> 'd env \<Rightarrow> bool" where
  "valid_throughout ops [] sw = IsValid ops (hash (fst sw))"
| "valid_throughout ops (c # cs) sw =
     (IsValid ops (hash (fst sw)) \<and> valid_throughout ops cs (snd (step ops c sw)))"

text \<open>How many \<^verbatim>\<open>Assign\<close> and how many \<^verbatim>\<open>Feed\<close> calls a log holds.\<close>

fun assigns :: "'d effect list \<Rightarrow> nat" where
  "assigns [] = 0"
| "assigns (Assign i v # es) = Suc (assigns es)"
| "assigns (e # es) = assigns es"

fun feeds :: "'d effect list \<Rightarrow> nat" where
  "feeds [] = 0"
| "feeds (HashFeed d # es) = Suc (feeds es)"
| "feeds (e # es) = feeds es"

text \<open>A notification that brings no bytes: anything but a chunk of positive length.\<close>

fun no_data :: "call \<Rightarrow> bool" where
  "no_data (CallDeliverStream data) = (length data = 0)"
| "no_data (CallUndelivered offset len) = True"
| "no_data CallEndOfFile = True"

text \<open>
  Modelled from the spec: the stream dispatcher that calls the action is outside
  \<^verbatim>\<open>Hash.cc\<close>. Its contract is the return value of each callback: true is "keep
  sending me this notification kind", false is "stop sending me this kind". The
  dispatcher keeps, for each of the three kinds, whether the action still wants it,
  starts with all three wanted, skips a notification of a kind no longer wanted, and
  stops sending a kind once a callback of that kind has returned false.
\<close>

record interest =
  want_stream :: bool
  want_gap :: bool
  want_eof :: bool

fun wants :: "interest \<Rightarrow> call \<Rightarrow> bool" where
  "wants i (CallDeliverStream data) = want_stream i"
| "wants i (CallUndelivered offset len) = want_gap i"
| "wants i CallEndOfFile = want_eof i"

fun decline :: "interest \<Rightarrow> call \<Rightarrow> interest" where
  "decline i (CallDeliverStream data) = i\<lparr>want_stream := False\<rparr>"
| "decline i (CallUndelivered offset len) = i\<lparr>want_gap := False\<rparr>"
| "decline i CallEndOfFile = i\<lparr>want_eof := False\<rparr>"

fun dispatch ::
  "('h, 'd) HashVal \<Rightarrow> call list \<Rightarrow> interest \<Rightarrow> 'h Hash \<times> 'd env \<Rightarrow> 'h Hash \<times> 'd env" where
  "dispatch ops [] i sw = sw"
| "dispatch ops (c # cs) i sw =
     (if \<not> wants i c then dispatch ops cs i sw
      else
        let r = step ops c sw
        in dispatch ops cs (if fst r then i else decline i c) (snd r))"

definition all_kinds :: interest where
  "all_kinds = \<lparr>want_stream = True, want_gap = True, want_eof = True\<rparr>"

subsection \<open>A hash value to compute with\<close>

text \<open>
  A small instance of the interface, used to evaluate the callbacks on concrete inputs:
  the hash value is a validity flag with the bytes consumed so far, \<open>Init\<close> marks it
  valid and empties it, \<open>Feed\<close> appends, and \<open>Get\<close> reads the bytes consumed as the
  digest and leaves the hash value as it is.
\<close>

definition ListHash :: "(bool \<times> u_char list, u_char list) HashVal" where
  "ListHash =
     \<lparr>Init = (\<lambda>h. (True, [])),
      Feed = (\<lambda>data h. (fst h, snd h @ data)),
      IsValid = fst,
      Get = (\<lambda>h. (snd h, h))\<rparr>"

definition env0 :: "(u_char list) env" where
  "env0 = \<lparr>results = Map.empty, calls = []\<rparr>"

text \<open>
  A second instance that differs in \<open>Init\<close> and \<open>Get\<close>: \<open>Init\<close> leaves a valid
  hash value alone, and \<open>Get\<close> leaves the hash value invalid once the digest is read.
\<close>

definition OneShotHash :: "(bool \<times> u_char list, u_char list) HashVal" where
  "OneShotHash =
     ListHash\<lparr>Init := (\<lambda>h. if fst h then h else (True, [])),
              Get := (\<lambda>h. (snd h, (False, snd h)))\<rparr>"

text \<open>
  Sample states: an instance as constructed for a field at offset 0, the same instance
  after the chunk \<open>[1]\<close>, and the environment after construction.
\<close>

definition fresh :: "(bool \<times> u_char list) Hash" where
  "fresh = \<lparr>hash = (True, []), fed = False, result_field_idx = 0\<rparr>"

definition fed_one :: "(bool \<times> u_char list) Hash" where
  "fed_one = \<lparr>hash = (True, [1]), fed = True, result_field_idx = 0\<rparr>"

definition env1 :: "(u_char list) env" where
  "env1 = \<lparr>results = Map.empty, calls = [HashInit]\<rparr>"

subsection \<open>What a digest of given bytes is\<close>

text \<open>
  The digest of a byte string: what \<open>Get\<close> returns once the hash value \<open>hv\<close> has been
  initialised and fed the bytes in one piece.
\<close>

definition Digest :: "('h, 'd) HashVal \<Rightarrow> 'h \<Rightarrow> u_char list \<Rightarrow> 'd" where
  "Digest ops hv bytes = fst (Get ops (Feed ops bytes (Init ops hv)))"

text \<open>
  Modelled from the spec: the hash value is "an incremental digest primitive", that is,
  feeding two pieces one after the other is feeding their concatenation.
\<close>

definition incremental :: "('h, 'd) HashVal \<Rightarrow> bool" where
  "incremental ops = (\<forall>h a b. Feed ops b (Feed ops a h) = Feed ops (a @ b) h)"

section \<open>Properties\<close>

subsection \<open>Auxiliary facts\<close>

lemma assigns_append: "assigns (xs @ ys) = assigns xs + assigns ys"
  by (induction xs rule: assigns.induct) simp_all

lemma feeds_append: "feeds (xs @ ys) = feeds xs + feeds ys"
  by (induction xs rule: feeds.induct) simp_all

lemma run_append: "run ops (pre @ post) sw = run ops post (run ops pre sw)"
  by (induction pre arbitrary: sw) simp_all

lemma step_invalid: "\<not> IsValid ops (hash (fst sw)) \<Longrightarrow> step ops c sw = (False, sw)"
  by (cases sw; cases c) simp_all

lemma run_invalid: "\<not> IsValid ops (hash (fst sw)) \<Longrightarrow> run ops cs sw = sw"
  by (induction cs) (simp_all add: step_invalid)

lemma step_fed: "fed (fst sw) \<Longrightarrow> fed (fst (snd (step ops c sw)))"
  by (cases sw; cases c) (simp_all add: Let_def split: prod.splits)

lemma run_fed: "fed (fst sw) \<Longrightarrow> fed (fst (run ops cs sw))"
  by (induction cs arbitrary: sw) (simp_all add: step_fed)

lemma FieldOffset_from_absent:
  "field \<notin> set types \<Longrightarrow> FieldOffset_from i types field = - 1"
  by (induction types arbitrary: i) auto

lemma FieldOffset_from_present:
  "field \<in> set types \<Longrightarrow>
     i \<le> FieldOffset_from i types field
     \<and> FieldOffset_from i types field < i + int (length types)
     \<and> types ! nat (FieldOffset_from i types field - i) = field"
proof (induction types arbitrary: i)
  case Nil
  then show ?case by simp
next
  case (Cons td types)
  show ?case
  proof (cases "td = field")
    case True
    then show ?thesis by simp
  next
    case False
    with Cons.prems have mem: "field \<in> set types" by simp
    from Cons.IH [OF mem, of "i + 1"]
    have ih: "i + 1 \<le> FieldOffset_from (i + 1) types field"
      "FieldOffset_from (i + 1) types field < i + 1 + int (length types)"
      "types ! nat (FieldOffset_from (i + 1) types field - (i + 1)) = field"
      by simp_all
    have "nat (FieldOffset_from (i + 1) types field - i)
            = Suc (nat (FieldOffset_from (i + 1) types field - (i + 1)))"
      using ih(1) by linarith
    with False ih show ?thesis by simp
  qed
qed

lemma run_unfed:
  "\<not> fed s \<Longrightarrow> list_all no_data cs \<Longrightarrow>
     \<not> fed (fst (run ops cs (s, w)))
     \<and> results (snd (run ops cs (s, w))) = results w
     \<and> assigns (calls (snd (run ops cs (s, w)))) = assigns (calls w)"
proof (induction cs arbitrary: s w)
  case Nil
  then show ?case by simp
next
  case (Cons c cs)
  obtain b s1 w1 where st: "step ops c (s, w) = (b, s1, w1)"
    by (cases "step ops c (s, w)") auto
  have one: "\<not> fed s1 \<and> results w1 = results w \<and> assigns (calls w1) = assigns (calls w)"
  proof (cases c)
    case (CallDeliverStream d)
    with Cons.prems have "d = []" by simp
    with st CallDeliverStream Cons.prems(1) show ?thesis
      by (auto simp: Let_def assigns_append split: if_splits)
  next
    case (CallUndelivered offset len)
    with st Cons.prems(1) show ?thesis by auto
  next
    case CallEndOfFile
    with st Cons.prems(1) show ?thesis by auto
  qed
  from Cons.prems have rest: "list_all no_data cs" by simp
  from one Cons.IH [of s1 w1, OF _ rest] st show ?case by simp
qed

lemma Finalize_assigns:
  "IsValid ops (hash s) \<Longrightarrow> fed s \<Longrightarrow>
     Finalize ops (s, w)
       = (s\<lparr>hash := snd (Get ops (hash s))\<rparr>,
          w\<lparr>results := (results w)(result_field_idx s \<mapsto> fst (Get ops (hash s))),
            calls := calls w @ [HashGet, Assign (result_field_idx s) (fst (Get ops (hash s)))]\<rparr>)"
  by (simp add: case_prod_beta)

lemma Finalize_skips:
  "\<not> (IsValid ops (hash s) \<and> fed s) \<Longrightarrow> Finalize ops (s, w) = (s, w)"
  by auto

lemma step_assigns:
  "assigns (calls (snd (snd (step ops c (s, w)))))
     = assigns (calls w) + (if c = CallEndOfFile \<and> fed s \<and> IsValid ops (hash s) then 1 else 0)"
proof (cases c)
  case (CallDeliverStream d)
  then show ?thesis by (simp add: Let_def assigns_append)
next
  case (CallUndelivered offset len)
  then show ?thesis by simp
next
  case CallEndOfFile
  show ?thesis
  proof (cases "IsValid ops (hash s) \<and> fed s")
    case True
    with CallEndOfFile show ?thesis by (simp add: Finalize_assigns assigns_append del: Finalize.simps)
  next
    case False
    with CallEndOfFile show ?thesis by (auto simp add: Finalize_skips simp del: Finalize.simps)
  qed
qed

lemma step_results:
  "\<not> (c = CallEndOfFile \<and> fed s \<and> IsValid ops (hash s)) \<Longrightarrow>
     results (snd (snd (step ops c (s, w)))) = results w"
  by (cases c) (auto simp: Let_def)

lemma dispatch_assigns:
  "assigns (calls (snd (dispatch ops cs i (s, w))))
     \<le> assigns (calls w) + (if want_eof i then 1 else 0)"
proof (induction cs arbitrary: i s w)
  case Nil
  show ?case by simp
next
  case (Cons c cs)
  show ?case
  proof (cases "wants i c")
    case False
    with Cons.IH [of i s w] show ?thesis by simp
  next
    case True
    obtain b s1 w1 where st: "step ops c (s, w) = (b, s1, w1)"
      by (cases "step ops c (s, w)") auto
    let ?i1 = "if b then i else decline i c"
    from True st have d: "dispatch ops (c # cs) i (s, w) = dispatch ops cs ?i1 (s1, w1)"
      by (simp del: step.simps)
    show ?thesis
    proof (cases "c = CallEndOfFile")
      case True
      with st have "\<not> b" by auto
      with True have "\<not> want_eof ?i1" by simp
      with Cons.IH [of ?i1 s1 w1]
      have "assigns (calls (snd (dispatch ops cs ?i1 (s1, w1)))) \<le> assigns (calls w1)"
        by simp
      moreover from step_assigns [of ops c s w] st
      have "assigns (calls w1) \<le> assigns (calls w) + 1" by (simp split: if_splits)
      moreover from True \<open>wants i c\<close> have "want_eof i" by simp
      ultimately show ?thesis using d by simp
    next
      case False
      then have "want_eof ?i1 = want_eof i" by (cases c) simp_all
      moreover from step_assigns [of ops c s w] st False
      have "assigns (calls w1) = assigns (calls w)" by simp
      ultimately show ?thesis using Cons.IH [of ?i1 s1 w1] d by simp
    qed
  qed
qed

lemma fold_Feed_concat:
  "incremental ops \<Longrightarrow> chunks \<noteq> [] \<Longrightarrow>
     fold (Feed ops) chunks h = Feed ops (concat chunks) h"
proof (induction chunks arbitrary: h)
  case Nil
  then show ?case by simp
next
  case (Cons c chunks)
  show ?case
  proof (cases "chunks = []")
    case True
    then show ?thesis by simp
  next
    case False
    with Cons have "fold (Feed ops) chunks (Feed ops c h) = Feed ops (concat chunks) (Feed ops c h)"
      by simp
    also from Cons.prems(1) have "\<dots> = Feed ops (c @ concat chunks) h"
      by (simp add: incremental_def)
    finally show ?thesis by simp
  qed
qed

lemma run_deliver:
  "valid_throughout ops (map CallDeliverStream chunks) (s, w) \<Longrightarrow>
     run ops (map CallDeliverStream chunks) (s, w)
       = (s\<lparr>hash := fold (Feed ops) chunks (hash s),
            fed := fed s \<or> list_ex (\<lambda>c. 0 < length c) chunks\<rparr>,
          w\<lparr>calls := calls w @ map HashFeed chunks\<rparr>)
     \<and> IsValid ops (fold (Feed ops) chunks (hash s))"
proof (induction chunks arbitrary: s w)
  case Nil
  then show ?case by simp
next
  case (Cons c chunks)
  from Cons.prems have v: "IsValid ops (hash s)" by simp
  let ?s1 = "s\<lparr>hash := Feed ops c (hash s), fed := fed s \<or> 0 < length c\<rparr>"
  let ?w1 = "w\<lparr>calls := calls w @ [HashFeed c]\<rparr>"
  from v have st: "DeliverStream ops c (s, w) = (True, ?s1, ?w1)"
    by (cases "fed s") (simp_all add: Let_def)
  from Cons.prems
  have "valid_throughout ops (map CallDeliverStream chunks) (snd (DeliverStream ops c (s, w)))"
    by (simp del: DeliverStream.simps)
  then have "valid_throughout ops (map CallDeliverStream chunks) (?s1, ?w1)"
    by (simp only: st snd_conv)
  from Cons.IH [OF this] st show ?case by (simp del: DeliverStream.simps)
qed

subsection \<open>Construction\<close>

text \<open>
  C3. Constructing with a field name that the results schema does not have fails with the
  internal (configuration) error and leaves the environment as it was, so no \<open>Init\<close>
  and no \<open>Feed\<close> has been called and there is no instance. Constructing with a field
  name of the schema succeeds: the instance holds the offset of that field, its hash
  value is the initialised one, \<open>fed\<close> is false, and \<open>Init\<close> is the one call made.
\<close>

theorem Hash_ctor_field:
  "(field \<notin> set ActionResults \<longrightarrow>
      Hash_ctor ops ActionResults hv field w
        = (Inl (InternalError (''Missing ActionResults field: '' @ field)), w))
   \<and> (field \<in> set ActionResults \<longrightarrow>
      (\<exists>idx. 0 \<le> idx \<and> idx < int (length ActionResults) \<and> ActionResults ! nat idx = field
         \<and> Hash_ctor ops ActionResults hv field w
             = (Inr \<lparr>hash = Init ops hv, fed = False, result_field_idx = idx\<rparr>,
                w\<lparr>calls := calls w @ [HashInit]\<rparr>)))"
proof (intro conjI impI)
  assume "field \<notin> set ActionResults"
  then show "Hash_ctor ops ActionResults hv field w
        = (Inl (InternalError (''Missing ActionResults field: '' @ field)), w)"
    by (simp add: Hash_ctor_def FieldOffset_def FieldOffset_from_absent)
next
  assume mem: "field \<in> set ActionResults"
  let ?idx = "FieldOffset ActionResults field"
  from FieldOffset_from_present [OF mem, of 0]
  have "0 \<le> ?idx" "?idx < int (length ActionResults)" "ActionResults ! nat ?idx = field"
    by (simp_all add: FieldOffset_def)
  moreover from \<open>0 \<le> ?idx\<close> have "Hash_ctor ops ActionResults hv field w
             = (Inr \<lparr>hash = Init ops hv, fed = False, result_field_idx = ?idx\<rparr>,
                w\<lparr>calls := calls w @ [HashInit]\<rparr>)"
    by (simp add: Hash_ctor_def Let_def)
  ultimately show "\<exists>idx. 0 \<le> idx \<and> idx < int (length ActionResults)
         \<and> ActionResults ! nat idx = field
         \<and> Hash_ctor ops ActionResults hv field w
             = (Inr \<lparr>hash = Init ops hv, fed = False, result_field_idx = idx\<rparr>,
                w\<lparr>calls := calls w @ [HashInit]\<rparr>)"
    by blast
qed

theorem Hash_ctor_field_witness:
  "''Bogus'' \<notin> set [''md5'', ''sha1'']
   \<and> Hash_ctor ListHash [''md5'', ''sha1''] (False, [9]) ''Bogus'' env0
       = (Inl (InternalError ''Missing ActionResults field: Bogus''), env0)
   \<and> ''sha1'' \<in> set [''md5'', ''sha1'']
   \<and> Hash_ctor ListHash [''md5'', ''sha1''] (False, [9]) ''sha1'' env0
       = (Inr \<lparr>hash = (True, []), fed = False, result_field_idx = 1\<rparr>,
          env1)"
  using Hash_ctor_field [of "''Bogus''" "[''md5'', ''sha1'']" ListHash "(False, [9])" env0]
    Hash_ctor_field [of "''sha1''" "[''md5'', ''sha1'']" ListHash "(False, [9])" env0]
  by (simp add: Hash_ctor_def FieldOffset_def ListHash_def env0_def
      fresh_def fed_one_def env1_def)

subsection \<open>Single callbacks\<close>

text \<open>
  C7. A \<open>DeliverStream\<close> call made while the hash value is invalid returns false and
  changes nothing: the hash value is not fed, \<open>fed\<close> keeps its value, and the results
  record and the call log are the same.
\<close>

theorem DeliverStream_invalid:
  "\<not> IsValid ops (hash s) \<Longrightarrow> DeliverStream ops data (s, w) = (False, s, w)"
  by simp

theorem DeliverStream_invalid_witness:
  "\<not> IsValid ListHash (hash \<lparr>hash = (False, [7]), fed = True, result_field_idx = 0\<rparr>)
   \<and> DeliverStream ListHash [1, 2]
         (\<lparr>hash = (False, [7]), fed = True, result_field_idx = 0\<rparr>, env0)
       = (False, \<lparr>hash = (False, [7]), fed = True, result_field_idx = 0\<rparr>, env0)"
  using DeliverStream_invalid
    [of ListHash "\<lparr>hash = (False, [7]), fed = True, result_field_idx = 0\<rparr>" "[1, 2]" env0]
  by (simp add: ListHash_def)

text \<open>
  C8. For every offset and length \<open>Undelivered\<close> returns false and hands back the
  instance and the environment as they were: \<open>fed\<close>, the hash value (and with it
  whether it reports valid) and the results record are unchanged.
\<close>

theorem Undelivered_no_effect:
  "Undelivered offset len (s, w) = (False, s, w)
   \<and> IsValid ops (hash (fst (snd (Undelivered offset len (s, w))))) = IsValid ops (hash s)"
  by simp

theorem Undelivered_no_effect_witness:
  "Undelivered 3 4 (\<lparr>hash = (True, [7]), fed = True, result_field_idx = 0\<rparr>, env0)
     = (False, \<lparr>hash = (True, [7]), fed = True, result_field_idx = 0\<rparr>, env0)
   \<and> IsValid ListHash (hash (fst (snd (Undelivered 3 4
         (\<lparr>hash = (True, [7]), fed = True, result_field_idx = 0\<rparr>, env0)))))"
  using Undelivered_no_effect
    [of 3 4 "\<lparr>hash = (True, [7]), fed = True, result_field_idx = 0\<rparr>" env0 ListHash]
  by (simp add: ListHash_def)

text \<open>
  C9. Every \<open>EndOfFile\<close> call runs \<open>Finalize\<close> on the state it is given and returns
  false, whatever the validity of the hash value and the value of \<open>fed\<close>.
\<close>

theorem EndOfFile_finalizes:
  "EndOfFile ops sw = (False, Finalize ops sw)"
  by (cases sw) simp

theorem EndOfFile_finalizes_witness:
  "EndOfFile ListHash (\<lparr>hash = (False, [7]), fed = False, result_field_idx = 0\<rparr>, env0)
     = (False,
        Finalize ListHash (\<lparr>hash = (False, [7]), fed = False, result_field_idx = 0\<rparr>, env0))
   \<and> fst (EndOfFile ListHash (\<lparr>hash = (True, [7]), fed = True, result_field_idx = 0\<rparr>, env0))
     = False"
  using EndOfFile_finalizes
    [of ListHash "(\<lparr>hash = (False, [7]), fed = False, result_field_idx = 0\<rparr>, env0)"]
    EndOfFile_finalizes
    [of ListHash "(\<lparr>hash = (True, [7]), fed = True, result_field_idx = 0\<rparr>, env0)"]
  by simp

subsection \<open>Sequences of callbacks\<close>

text \<open>
  C10. \<open>fed\<close> is monotone: when it is true after some notifications, it is true after
  any further \<open>DeliverStream\<close>, \<open>Undelivered\<close> and \<open>EndOfFile\<close> notifications.
\<close>

theorem fed_monotone:
  "fed (fst (run ops pre sw)) \<Longrightarrow> fed (fst (run ops (pre @ post) sw))"
  by (simp add: run_append run_fed)

theorem fed_monotone_witness:
  "fed (fst (run ListHash [CallDeliverStream [1]]
       (fresh, env0)))
   \<and> fed (fst (run ListHash
       ([CallDeliverStream [1]]
          @ [CallDeliverStream [], CallUndelivered 0 5, CallEndOfFile, CallDeliverStream []])
       (fresh, env0)))"
  using fed_monotone [of ListHash "[CallDeliverStream [1]]"
    "(fresh, env0)"
    "[CallDeliverStream [], CallUndelivered 0 5, CallEndOfFile, CallDeliverStream []]"]
  by (simp add: ListHash_def
      fresh_def fed_one_def env1_def)

text \<open>
  C4. Once the hash value reports invalid, after any notifications, the notifications that
  follow change nothing at all: the hash value is fed no further bytes and the results
  field is never assigned, however many bytes were fed before.
\<close>

theorem invalid_is_final:
  "\<not> IsValid ops (hash (fst (run ops pre sw))) \<Longrightarrow>
     run ops (pre @ post) sw = run ops pre sw
     \<and> feeds (calls (snd (run ops (pre @ post) sw))) = feeds (calls (snd (run ops pre sw)))
     \<and> assigns (calls (snd (run ops (pre @ post) sw)))
         = assigns (calls (snd (run ops pre sw)))
     \<and> results (snd (run ops (pre @ post) sw)) = results (snd (run ops pre sw))"
  by (simp add: run_append run_invalid)

theorem invalid_is_final_witness:
  "\<not> IsValid OneShotHash (hash (fst (run OneShotHash
         [CallDeliverStream [1], CallEndOfFile]
         (fresh, env0))))
   \<and> run OneShotHash
         ([CallDeliverStream [1], CallEndOfFile] @ [CallDeliverStream [2], CallEndOfFile])
         (fresh, env0)
       = (\<lparr>hash = (False, [1]), fed = True, result_field_idx = 0\<rparr>,
          \<lparr>results = [0 \<mapsto> [1]], calls = [HashFeed [1], HashGet, Assign 0 [1]]\<rparr>)"
  using invalid_is_final [of OneShotHash "[CallDeliverStream [1], CallEndOfFile]"
    "(fresh, env0)"
    "[CallDeliverStream [2], CallEndOfFile]"]
  by (simp add: OneShotHash_def ListHash_def env0_def
      fresh_def fed_one_def env1_def)

text \<open>
  C5. When \<open>fed\<close> is false, as it is after construction, and every chunk delivered
  before the end of file has length zero (in particular when none is delivered),
  \<open>fed\<close> is still false after \<open>EndOfFile\<close>, no \<open>Assign\<close> call has been made, and
  the results record is the same.
\<close>

theorem no_data_no_result:
  assumes "\<not> fed s" and "list_all no_data cs"
  shows "\<not> fed (fst (run ops (cs @ [CallEndOfFile]) (s, w)))
     \<and> results (snd (run ops (cs @ [CallEndOfFile]) (s, w))) = results w
     \<and> assigns (calls (snd (run ops (cs @ [CallEndOfFile]) (s, w)))) = assigns (calls w)"
proof -
  from assms(2) have "list_all no_data (cs @ [CallEndOfFile])"
    by simp
  with assms(1) show ?thesis by (rule run_unfed)
qed

theorem no_data_no_result_witness:
  "\<not> fed fresh
   \<and> list_all no_data [CallDeliverStream [], CallDeliverStream [], CallDeliverStream []]
   \<and> run ListHash
       ([CallDeliverStream [], CallDeliverStream [], CallDeliverStream []] @ [CallEndOfFile])
       (fresh, env0)
     = (fresh,
        \<lparr>results = Map.empty, calls = [HashFeed [], HashFeed [], HashFeed []]\<rparr>)"
  using no_data_no_result
    [of fresh
      "[CallDeliverStream [], CallDeliverStream [], CallDeliverStream []]" ListHash env0]
  by (simp add: ListHash_def env0_def
      fresh_def fed_one_def env1_def)

subsection \<open>Publishing the digest\<close>

text \<open>
  C6. An \<open>EndOfFile\<close> call on an instance whose hash value is valid and whose \<open>fed\<close>
  is true reads the digest and assigns it to the result field. The call leaves \<open>fed\<close>
  true and keeps no mark of its own that it has published, so a second \<open>EndOfFile\<close>
  call on the instance, its hash value still valid, assigns the field a second time.
\<close>

theorem EndOfFile_assigns:
  assumes "IsValid ops (hash s)" and "fed s"
  shows "EndOfFile ops (s, w)
       = (False, s\<lparr>hash := snd (Get ops (hash s))\<rparr>,
          w\<lparr>results := (results w)(result_field_idx s \<mapsto> fst (Get ops (hash s))),
            calls := calls w @ [HashGet, Assign (result_field_idx s) (fst (Get ops (hash s)))]\<rparr>)
     \<and> fed (fst (snd (EndOfFile ops (s, w))))
     \<and> (IsValid ops (hash (fst (snd (EndOfFile ops (s, w))))) \<longrightarrow>
         calls (snd (run ops [CallEndOfFile, CallEndOfFile] (s, w)))
           = calls w @ [HashGet, Assign (result_field_idx s) (fst (Get ops (hash s))),
                        HashGet, Assign (result_field_idx s)
                          (fst (Get ops (snd (Get ops (hash s)))))])"
  using assms by (simp add: case_prod_beta)

theorem EndOfFile_assigns_witness:
  "IsValid ListHash (hash fed_one) \<and> fed fed_one
   \<and> EndOfFile ListHash (fed_one, env0)
       = (False, fed_one, \<lparr>results = [0 \<mapsto> [1]], calls = [HashGet, Assign 0 [1]]\<rparr>)
   \<and> IsValid ListHash (hash (fst (snd (EndOfFile ListHash (fed_one, env0)))))
   \<and> calls (snd (run ListHash [CallEndOfFile, CallEndOfFile] (fed_one, env0)))
       = [HashGet, Assign 0 [1], HashGet, Assign 0 [1]]"
  using EndOfFile_assigns [of ListHash fed_one env0]
  by (simp add: ListHash_def env0_def
      fresh_def fed_one_def env1_def)

text \<open>
  C2. Whatever notifications the dispatcher has for an instance, the action assigns its
  result field at most once: the first \<open>EndOfFile\<close> call returns false, and no second
  one is sent. A call assigns exactly when it is \<open>EndOfFile\<close>, \<open>fed\<close> is true and
  the hash value reports valid at that moment; any other call makes no \<open>Assign\<close> call
  and leaves the results record as it was.
\<close>

theorem Assign_at_most_once:
  "assigns (calls (snd (dispatch ops cs i (s, w)))) \<le> assigns (calls w) + 1
   \<and> assigns (calls (snd (snd (step ops c (s, w)))))
     = assigns (calls w) + (if c = CallEndOfFile \<and> fed s \<and> IsValid ops (hash s) then 1 else 0)
   \<and> (\<not> (c = CallEndOfFile \<and> fed s \<and> IsValid ops (hash s)) \<longrightarrow>
        results (snd (snd (step ops c (s, w)))) = results w)"
proof -
  from dispatch_assigns [of ops cs i s w]
  have "assigns (calls (snd (dispatch ops cs i (s, w)))) \<le> assigns (calls w) + 1"
    by (simp split: if_splits)
  with step_assigns [of ops c s w] step_results [of c s ops w] show ?thesis
    by blast
qed

theorem Assign_at_most_once_witness:
  "calls (snd (dispatch ListHash
       [CallDeliverStream [1], CallUndelivered 1 4, CallEndOfFile, CallDeliverStream [2],
        CallEndOfFile]
       all_kinds (fresh, env1)))
     = [HashInit, HashFeed [1], HashGet, Assign 0 [1], HashFeed [2]]
   \<and> assigns (calls (snd (dispatch ListHash
       [CallDeliverStream [1], CallUndelivered 1 4, CallEndOfFile, CallDeliverStream [2],
        CallEndOfFile]
       all_kinds (fresh, env1)))) \<le> assigns (calls env1) + 1
   \<and> \<not> (CallDeliverStream [1] = CallEndOfFile \<and> fed fresh \<and> IsValid ListHash (hash fresh))
   \<and> results (snd (snd (step ListHash (CallDeliverStream [1]) (fresh, env1)))) = results env1
   \<and> assigns (calls (snd (snd (step ListHash CallEndOfFile (fed_one, env1))))) = 1"
  using Assign_at_most_once [of ListHash
      "[CallDeliverStream [1], CallUndelivered 1 4, CallEndOfFile, CallDeliverStream [2],
        CallEndOfFile]" all_kinds fresh env1 "CallDeliverStream [1]"]
    Assign_at_most_once [of ListHash "[]" all_kinds fed_one env1 CallEndOfFile]
  by (simp add: ListHash_def all_kinds_def fresh_def fed_one_def env1_def)

text \<open>
  C1. Take an instance as constructed, a hash value that is incremental, and a list of
  non-empty chunks delivered in order with the hash value valid before each delivery and
  before the end of file. If the list is not empty, \<open>EndOfFile\<close> assigns to the result
  field the digest of the concatenation of the chunks, in the order of delivery, and that
  assignment is the last call made. (If no chunk is delivered, nothing is assigned.)
\<close>

theorem digest_of_concatenation:
  assumes inc: "incremental ops"
    and ctor: "Hash_ctor ops ActionResults hv field w0 = (Inr s0, w1)"
    and ne: "[] \<notin> set chunks"
    and valid: "valid_throughout ops (map CallDeliverStream chunks) (s0, w1)"
  shows "(chunks \<noteq> [] \<longrightarrow>
      results (snd (run ops (map CallDeliverStream chunks @ [CallEndOfFile]) (s0, w1)))
        = (results w0)(result_field_idx s0 \<mapsto> Digest ops hv (concat chunks))
      \<and> calls (snd (run ops (map CallDeliverStream chunks @ [CallEndOfFile]) (s0, w1)))
        = calls w0 @ [HashInit] @ map HashFeed chunks
            @ [HashGet, Assign (result_field_idx s0) (Digest ops hv (concat chunks))])
    \<and> (chunks = [] \<longrightarrow>
      run ops (map CallDeliverStream chunks @ [CallEndOfFile]) (s0, w1) = (s0, w1))"
proof (intro conjI impI)
  from ctor have s0: "hash s0 = Init ops hv" "fed s0 = False"
    and w1: "results w1 = results w0" "calls w1 = calls w0 @ [HashInit]"
    by (auto simp: Hash_ctor_def Let_def split: if_splits)
  {
    assume "chunks = []"
    with s0 show "run ops (map CallDeliverStream chunks @ [CallEndOfFile]) (s0, w1) = (s0, w1)"
      by simp
  }
  assume nonempty: "chunks \<noteq> []"
  let ?s = "s0\<lparr>hash := fold (Feed ops) chunks (hash s0),
                fed := fed s0 \<or> list_ex (\<lambda>c. 0 < length c) chunks\<rparr>"
  let ?w = "w1\<lparr>calls := calls w1 @ map HashFeed chunks\<rparr>"
  from run_deliver [OF valid]
  have r: "run ops (map CallDeliverStream chunks) (s0, w1) = (?s, ?w)"
    and v: "IsValid ops (hash ?s)" by simp_all
  from nonempty ne have f: "fed ?s"
    by (cases chunks) auto
  from inc nonempty s0 have h: "hash ?s = Feed ops (concat chunks) (Init ops hv)"
    by (simp add: fold_Feed_concat)
  have fin: "run ops (map CallDeliverStream chunks @ [CallEndOfFile]) (s0, w1)
      = Finalize ops (?s, ?w)"
    by (simp add: run_append r del: Finalize.simps)
  from v f have "Finalize ops (?s, ?w)
       = (?s\<lparr>hash := snd (Get ops (hash ?s))\<rparr>,
          ?w\<lparr>results := (results ?w)(result_field_idx ?s \<mapsto> fst (Get ops (hash ?s))),
            calls := calls ?w @ [HashGet, Assign (result_field_idx ?s) (fst (Get ops (hash ?s)))]\<rparr>)"
    by (rule Finalize_assigns)
  with fin h w1
  show "results (snd (run ops (map CallDeliverStream chunks @ [CallEndOfFile]) (s0, w1)))
        = (results w0)(result_field_idx s0 \<mapsto> Digest ops hv (concat chunks))"
    and "calls (snd (run ops (map CallDeliverStream chunks @ [CallEndOfFile]) (s0, w1)))
        = calls w0 @ [HashInit] @ map HashFeed chunks
            @ [HashGet, Assign (result_field_idx s0) (Digest ops hv (concat chunks))]"
    by (simp_all add: Digest_def del: Finalize.simps)
qed

theorem digest_of_concatenation_witness:
  "incremental ListHash
   \<and> Hash_ctor ListHash [''md5''] (False, [9]) ''md5'' env0 = (Inr fresh, env1)
   \<and> [] \<notin> set [[1], [2, 3]]
   \<and> valid_throughout ListHash (map CallDeliverStream [[1], [2, 3]]) (fresh, env1)
   \<and> results (snd (run ListHash (map CallDeliverStream [[1], [2, 3]] @ [CallEndOfFile])
       (fresh, env1)))
     = [0 \<mapsto> Digest ListHash (False, [9]) [1, 2, 3]]
   \<and> Digest ListHash (False, [9]) [1, 2, 3] = [1, 2, 3]
   \<and> [] \<notin> set ([] :: u_char list list)
   \<and> valid_throughout ListHash (map CallDeliverStream []) (fresh, env1)
   \<and> run ListHash (map CallDeliverStream [] @ [CallEndOfFile]) (fresh, env1) = (fresh, env1)"
  using digest_of_concatenation [of ListHash "[''md5'']" "(False, [9])" "''md5''" env0
      fresh env1 "[[1], [2, 3]]"]
    digest_of_concatenation [of ListHash "[''md5'']" "(False, [9])" "''md5''" env0
      fresh env1 "[]"]
  by (simp add: incremental_def ListHash_def Hash_ctor_def FieldOffset_def env0_def Digest_def
      fresh_def fed_one_def env1_def)

end
